theory Spec2Isabelle
  imports Complex_Main
begin

section \<open>JavaScript numbers\<close>

text \<open>
  A JavaScript \<^verbatim>\<open>number\<close> is a finite value, one of the two infinities, or NaN.
  Finite values are carried as reals and the arithmetic on them is exact: rounding and
  overflow of the 64-bit format are not part of this model, and the two signed zeros
  are one value (the positive zero). Everything else follows the language: a division by
  zero yields an infinity or NaN and never raises, NaN is absorbing, and every
  comparison with NaN is false.
\<close>

datatype number = Fin real | PInf | NInf | NaN

fun isFinite :: "number \<Rightarrow> bool" where
  "isFinite (Fin a) = True"
| "isFinite PInf = False"
| "isFinite NInf = False"
| "isFinite NaN = False"

fun signed_inf :: "bool \<Rightarrow> number" where
  "signed_inf True = PInf"
| "signed_inf False = NInf"

instantiation number :: "{zero, one, plus, uminus, minus, times, inverse, abs, ord}"
begin

definition zero_number :: number where
  "zero_number = Fin 0"

definition one_number :: number where
  "one_number = Fin 1"

fun plus_number :: "number \<Rightarrow> number \<Rightarrow> number" where
  "plus_number (Fin a) (Fin b) = Fin (a + b)"
| "plus_number NaN y = NaN"
| "plus_number x NaN = NaN"
| "plus_number PInf NInf = NaN"
| "plus_number NInf PInf = NaN"
| "plus_number PInf y = PInf"
| "plus_number x PInf = PInf"
| "plus_number NInf y = NInf"
| "plus_number x NInf = NInf"

fun uminus_number :: "number \<Rightarrow> number" where
  "uminus_number (Fin a) = Fin (- a)"
| "uminus_number PInf = NInf"
| "uminus_number NInf = PInf"
| "uminus_number NaN = NaN"

definition minus_number :: "number \<Rightarrow> number \<Rightarrow> number" where
  "minus_number x y = x + (- y)"

fun times_number :: "number \<Rightarrow> number \<Rightarrow> number" where
  "times_number (Fin a) (Fin b) = Fin (a * b)"
| "times_number NaN y = NaN"
| "times_number x NaN = NaN"
| "times_number PInf PInf = PInf"
| "times_number PInf NInf = NInf"
| "times_number NInf PInf = NInf"
| "times_number NInf NInf = PInf"
| "times_number PInf (Fin b) = (if b = 0 then NaN else signed_inf (0 < b))"
| "times_number NInf (Fin b) = (if b = 0 then NaN else signed_inf (b < 0))"
| "times_number (Fin a) PInf = (if a = 0 then NaN else signed_inf (0 < a))"
| "times_number (Fin a) NInf = (if a = 0 then NaN else signed_inf (a < 0))"

fun divide_number :: "number \<Rightarrow> number \<Rightarrow> number" where
  "divide_number (Fin a) (Fin b) =
     (if b \<noteq> 0 then Fin (a / b) else if a = 0 then NaN else signed_inf (0 < a))"
| "divide_number NaN y = NaN"
| "divide_number x NaN = NaN"
| "divide_number (Fin a) PInf = Fin 0"
| "divide_number (Fin a) NInf = Fin 0"
| "divide_number PInf (Fin b) = signed_inf (0 \<le> b)"
| "divide_number NInf (Fin b) = signed_inf (b < 0)"
| "divide_number PInf y = NaN"
| "divide_number NInf y = NaN"

definition inverse_number :: "number \<Rightarrow> number" where
  "inverse_number x = divide (Fin 1) x"

fun abs_number :: "number \<Rightarrow> number" where
  "abs_number (Fin a) = Fin \<bar>a\<bar>"
| "abs_number PInf = PInf"
| "abs_number NInf = PInf"
| "abs_number NaN = NaN"

fun less_number :: "number \<Rightarrow> number \<Rightarrow> bool" where
  "less_number (Fin a) (Fin b) = (a < b)"
| "less_number NaN y = False"
| "less_number x NaN = False"
| "less_number x NInf = False"
| "less_number PInf y = False"
| "less_number NInf y = True"
| "less_number (Fin a) PInf = True"

definition less_eq_number :: "number \<Rightarrow> number \<Rightarrow> bool" where
  "less_eq_number x y = (x < y \<or> (x = y \<and> x \<noteq> NaN))"

instance ..

end

text \<open>\<^verbatim>\<open>Math.sqrt\<close>.\<close>

fun Math_sqrt :: "number \<Rightarrow> number" where
  "Math_sqrt (Fin a) = (if a < 0 then NaN else Fin (sqrt a))"
| "Math_sqrt PInf = PInf"
| "Math_sqrt NInf = NaN"
| "Math_sqrt NaN = NaN"

text \<open>\<^verbatim>\<open>x ** 2\<close>.\<close>

definition pow2 :: "number \<Rightarrow> number" where
  "pow2 x = x * x"

text \<open>\<^verbatim>\<open>x === y\<close> on numbers: NaN is not equal to itself.\<close>

definition strict_eq :: "number \<Rightarrow> number \<Rightarrow> bool" where
  "strict_eq x y = (x = y \<and> x \<noteq> NaN)"

text \<open>Truthiness of a number: zero and NaN are falsy.\<close>

definition truthy :: "number \<Rightarrow> bool" where
  "truthy x = (x \<noteq> Fin 0 \<and> x \<noteq> NaN)"

section \<open>Arrays\<close>

text \<open>
  The only exception the code can raise is the TypeError of indexing or spreading
  \<^verbatim>\<open>undefined\<close>, or of reading a field of it, which happens when a row of a matrix or
  a commodity is missing.
\<close>

datatype error = TypeError

type_synonym vector = "number list"
type_synonym matrix = "number list list"

text \<open>
  Reading an element of a row that is used in arithmetic: past the end the read yields
  \<^verbatim>\<open>undefined\<close>, which every arithmetic operator and \<^verbatim>\<open>Math.abs\<close> converts to NaN.
\<close>

definition elemAt :: "vector \<Rightarrow> nat \<Rightarrow> number" where
  "elemAt xs i = (if i < length xs then xs ! i else NaN)"

text \<open>
  The assignment \<^verbatim>\<open>xs[j] = v\<close>: past the end the array grows, and the slots in between
  are holes, which read as \<^verbatim>\<open>undefined\<close> (NaN in arithmetic).
\<close>

definition assignAt :: "vector \<Rightarrow> nat \<Rightarrow> number \<Rightarrow> vector" where
  "assignAt xs j v =
     (if j < length xs then xs[j := v] else xs @ replicate (j - length xs) NaN @ [v])"

section \<open>utils/math.ts: the linear solver\<close>

text \<open>The augmented matrix \<^verbatim>\<open>b.map((val, i) => [...M[i], val])\<close>, for \<open>b\<close> as long as \<open>A\<close>.\<close>

definition augmented :: "matrix \<Rightarrow> vector \<Rightarrow> matrix" where
  "augmented A b = map2 (\<lambda>row val. row @ [val]) A b"

text \<open>The pivot search of step \<open>i\<close>: the loop over \<open>k = i+1 .. n-1\<close> that keeps in
  \<open>maxRow\<close> the first row with the largest magnitude in column \<open>i\<close>.\<close>

definition findPivot :: "nat \<Rightarrow> nat \<Rightarrow> matrix \<Rightarrow> nat" where
  "findPivot n i aug =
     foldl (\<lambda>maxRow k. if \<bar>elemAt (aug ! maxRow) i\<bar> < \<bar>elemAt (aug ! k) i\<bar> then k else maxRow)
       i [i + 1 ..< n]"

text \<open>\<^verbatim>\<open>[aug[i], aug[maxRow]] = [aug[maxRow], aug[i]]\<close>.\<close>

definition swapRows :: "nat \<Rightarrow> nat \<Rightarrow> matrix \<Rightarrow> matrix" where
  "swapRows i maxRow aug = (aug[i := aug ! maxRow])[maxRow := aug ! i]"

text \<open>The update of one row \<open>k\<close> below the pivot row: the factor is computed once, then
  the columns \<open>i .. n\<close> (the right-hand side included) are updated in place.\<close>

definition elimRow :: "nat \<Rightarrow> nat \<Rightarrow> vector \<Rightarrow> vector \<Rightarrow> vector" where
  "elimRow n i pivotRow row =
     (let factor = elemAt row i / elemAt pivotRow i
      in foldl (\<lambda>r j. assignAt r j (elemAt r j - factor * elemAt pivotRow j)) row [i ..< n + 1])"

definition eliminate :: "nat \<Rightarrow> nat \<Rightarrow> matrix \<Rightarrow> matrix" where
  "eliminate n i aug =
     foldl (\<lambda>a k. a[k := elimRow n i (a ! i) (a ! k)]) aug [i + 1 ..< n]"

text \<open>The singularity tolerance \<^verbatim>\<open>1e-10\<close>.\<close>

definition pivotTol :: number where
  "pivotTol = Fin (1 / 10 ^ 10)"

text \<open>The forward elimination loop; \<open>None\<close> is the early \<^verbatim>\<open>return null\<close>.\<close>

function forward :: "nat \<Rightarrow> nat \<Rightarrow> matrix \<Rightarrow> matrix option" where
  "forward n i aug =
     (if i < n then
        (let maxRow = findPivot n i aug;
             aug1 = swapRows i maxRow aug
         in if \<bar>elemAt (aug1 ! i) i\<bar> < pivotTol then None
            else forward n (i + 1) (eliminate n i aug1))
      else Some aug)"
  by pat_completeness auto
termination
  by (relation "measure (\<lambda>(n, i, aug). n - i)") auto

declare forward.simps [simp del]

text \<open>Back substitution, for \<open>i = n-1\<close> down to \<open>0\<close>.\<close>

definition backRow :: "nat \<Rightarrow> matrix \<Rightarrow> vector \<Rightarrow> nat \<Rightarrow> vector" where
  "backRow n aug x i =
     (let sum = foldl (\<lambda>s j. s + elemAt (aug ! i) j * x ! j) 0 [i + 1 ..< n]
      in x[i := (elemAt (aug ! i) n - sum) / elemAt (aug ! i) i])"

definition backSubst :: "nat \<Rightarrow> matrix \<Rightarrow> vector" where
  "backSubst n aug = foldl (backRow n aug) (replicate n 0) (rev [0 ..< n])"

text \<open>
  \<^verbatim>\<open>solveLinearSystem\<close>. The augmented matrix has one row per entry of \<open>b\<close>. When \<open>b\<close>
  is longer than \<open>A\<close> the spread of the missing row \<^verbatim>\<open>M[i]\<close> raises; when it is shorter,
  step 0 indexes the missing row \<^verbatim>\<open>aug[k]\<close> (in the pivot search, or in the singularity
  check when \<open>n = 1\<close>) and raises. With equal lengths every row index stays in range.
  \<open>Inr None\<close> is the result \<^verbatim>\<open>null\<close>.
\<close>

definition solveLinearSystem :: "matrix \<Rightarrow> vector \<Rightarrow> error + vector option" where
  "solveLinearSystem A b =
     (let n = length A
      in if length b \<noteq> n then Inl TypeError
         else (case forward n 0 (augmented A b) of
                 None \<Rightarrow> Inr None
               | Some aug \<Rightarrow> Inr (Some (backSubst n aug))))"

section \<open>utils/math.ts: the dominant eigenvalue\<close>

text \<open>\<^verbatim>\<open>w = A * v\<close>: every \<open>w[i]\<close> starts at 0 and accumulates \<open>A[i][j] * v[j]\<close> for
  \<open>j = 0 .. n-1\<close>. The row index stays below \<open>n = A.length\<close>, and \<open>v\<close> has length \<open>n\<close>.\<close>

definition matVec :: "nat \<Rightarrow> matrix \<Rightarrow> vector \<Rightarrow> vector" where
  "matVec n A v =
     map (\<lambda>i. foldl (\<lambda>acc j. acc + elemAt (A ! i) j * v ! j) 0 [0 ..< n]) [0 ..< n]"

definition vecNorm :: "nat \<Rightarrow> vector \<Rightarrow> number" where
  "vecNorm n w = Math_sqrt (foldl (\<lambda>norm i. norm + pow2 (w ! i)) 0 [0 ..< n])"

text \<open>The tolerance \<^verbatim>\<open>1e-12\<close> on the norm.\<close>

definition normTol :: number where
  "normTol = Fin (1 / 10 ^ 12)"

text \<open>The iteration loop, \<open>iter = 0 .. 999\<close>; \<open>None\<close> is the early \<^verbatim>\<open>return 0\<close>.\<close>

function powerLoop :: "nat \<Rightarrow> matrix \<Rightarrow> nat \<Rightarrow> vector \<Rightarrow> vector option" where
  "powerLoop n A iter v =
     (if iter < 1000 then
        (let w = matVec n A v;
             norm = vecNorm n w
         in if norm < normTol then None
            else powerLoop n A (iter + 1) (map (\<lambda>i. w ! i / norm) [0 ..< n]))
      else Some v)"
  by pat_completeness auto
termination
  by (relation "measure (\<lambda>(n, A, iter, v). 1000 - iter)") auto

declare powerLoop.simps [simp del]

definition getDominantEigenvalue :: "matrix \<Rightarrow> number" where
  "getDominantEigenvalue A =
     (let n = length A
      in if n = 0 then 0
         else (case powerLoop n A 0 (replicate n (Fin 1 / Math_sqrt (Fin (real n)))) of
                 None \<Rightarrow> 0
               | Some v \<Rightarrow>
                   (let Av = matVec n A v
                    in foldl (\<lambda>lambda i. lambda + v ! i * Av ! i) 0 [0 ..< n])))"

section \<open>utils/math.ts: the economic model\<close>

text \<open>
  The coefficient matrix, built by the same loop in \<^verbatim>\<open>calculateMaxProfitRate\<close> and in
  \<^verbatim>\<open>calculateSraffianPrices\<close>: \<open>n\<close> is the length of \<open>totalOutputs\<close>, and a row
  \<^verbatim>\<open>physicalMatrix[i]\<close> that does not exist raises when it is indexed. A missing
  element \<open>Q_ij\<close> is \<^verbatim>\<open>undefined\<close> and divides to NaN.
\<close>

definition coefficientMatrix :: "matrix \<Rightarrow> vector \<Rightarrow> error + matrix" where
  "coefficientMatrix physicalMatrix totalOutputs =
     (let n = length totalOutputs
      in if length physicalMatrix < n then Inl TypeError
         else Inr (map (\<lambda>i. map (\<lambda>j.
                let Q_ij = elemAt (physicalMatrix ! i) j;
                    X_j = totalOutputs ! j
                in if strict_eq X_j 0 then 0 else Q_ij / X_j) [0 ..< n]) [0 ..< n]))"

definition calculateMaxProfitRate :: "matrix \<Rightarrow> vector \<Rightarrow> error + number" where
  "calculateMaxProfitRate physicalMatrix totalOutputs =
     (case coefficientMatrix physicalMatrix totalOutputs of
        Inl e \<Rightarrow> Inl e
      | Inr A \<Rightarrow>
          (let lambda = getDominantEigenvalue A
           in if lambda \<le> Fin (1 / 10 ^ 9) then Inr (Fin 100)
              else Inr (Fin 1 / lambda - Fin 1)))"

text \<open>The unit labor vector \<open>l\<close>; \<open>n\<close> is the length of \<open>totalOutputs\<close>.\<close>

definition unitLabor :: "vector \<Rightarrow> vector \<Rightarrow> number \<Rightarrow> vector" where
  "unitLabor laborVector totalOutputs w =
     map (\<lambda>j. let L_j = elemAt laborVector j;
                  X_j = totalOutputs ! j
              in if strict_eq X_j 0 then 0 else (L_j / X_j) * w)
       [0 ..< length totalOutputs]"

text \<open>The system matrix of \<open>[I - (1+r)A]P = l\<close>; \<open>A\<close> is \<open>n \<times> n\<close> by construction.\<close>

definition systemMatrix :: "nat \<Rightarrow> matrix \<Rightarrow> number \<Rightarrow> matrix" where
  "systemMatrix n A r =
     (let Multiplier = 1 + r
      in map (\<lambda>row. map (\<lambda>col.
            let a_input_into_row = A ! col ! row
            in if row = col then 1 - Multiplier * a_input_into_row
               else - Multiplier * a_input_into_row) [0 ..< n]) [0 ..< n])"

record priceResult =
  prices :: vector
  isValid :: bool

definition calculateSraffianPrices ::
  "matrix \<Rightarrow> vector \<Rightarrow> vector \<Rightarrow> number \<Rightarrow> number \<Rightarrow> error + priceResult" where
  "calculateSraffianPrices physicalMatrix laborVector totalOutputs r w =
     (let n = length totalOutputs
      in case coefficientMatrix physicalMatrix totalOutputs of
           Inl e \<Rightarrow> Inl e
         | Inr A \<Rightarrow>
             (let l = unitLabor laborVector totalOutputs w;
                  SystemMatrix = systemMatrix n A r
              in case solveLinearSystem SystemMatrix l of
                   Inl e \<Rightarrow> Inl e
                 | Inr None \<Rightarrow> Inr \<lparr>prices = [], isValid = False\<rparr>
                 | Inr (Some P) \<Rightarrow>
                     Inr \<lparr>prices = P, isValid = list_all (\<lambda>p. Fin (- (1 / 10 ^ 6)) < p) P\<rparr>))"

section \<open>App.tsx: metrics, national accounts and cost breakdown\<close>

text \<open>\<^verbatim>\<open>interface Commodity\<close>; the field \<^verbatim>\<open>id\<close> is written \<open>commodity_id\<close>.\<close>

record Commodity =
  commodity_id :: number
  name :: string
  totalOutput :: number
  laborInput :: number

text \<open>\<^verbatim>\<open>interface ComputedMetrics\<close>: the result of the price computation together with the
  wage and the maximum profit rate.\<close>

record ComputedMetrics = priceResult +
  wage :: number
  maxProfitRate :: "number option"

text \<open>The memoised \<^verbatim>\<open>metrics\<close> of a snapshot (commodities, matrix, profitRate, wage).\<close>

definition metrics ::
  "Commodity list \<Rightarrow> matrix \<Rightarrow> number \<Rightarrow> number \<Rightarrow> error + ComputedMetrics" where
  "metrics commodities mat profitRate wage0 =
     (let laborVector = map laborInput commodities;
          totalOutputs = map totalOutput commodities
      in case calculateMaxProfitRate mat totalOutputs of
           Inl e \<Rightarrow> Inl e
         | Inr maxR \<Rightarrow>
             (case calculateSraffianPrices mat laborVector totalOutputs profitRate wage0 of
                Inl e \<Rightarrow> Inl e
              | Inr result \<Rightarrow>
                  Inr \<lparr>prices = prices result, isValid = isValid result,
                       wage = wage0, maxProfitRate = Some maxR\<rparr>))"

text \<open>\<^verbatim>\<open>metrics.prices[idx] || 0\<close>: a missing, zero or NaN price reads as 0.\<close>

definition priceOr0 :: "vector \<Rightarrow> nat \<Rightarrow> number" where
  "priceOr0 ps idx = (if idx < length ps \<and> truthy (ps ! idx) then ps ! idx else 0)"



text \<open>The result of \<^verbatim>\<open>getCostBreakdown\<close>; \<open>price\<close> is \<^verbatim>\<open>metrics.prices[idx]\<close> as read,
  \<open>None\<close> when the index is past the end (\<^verbatim>\<open>undefined\<close>).\<close>

record CostBreakdown =
  constantCapitalValue :: number
  profit :: number
  wageCost :: number
  price :: "number option"

text \<open>
  \<^verbatim>\<open>getCostBreakdown\<close>; \<open>Inr None\<close> is the result \<^verbatim>\<open>null\<close>. Reading a field of
  \<^verbatim>\<open>commodities[idx]\<close> raises when \<open>idx\<close> is past the end, and so does indexing a
  missing row \<^verbatim>\<open>matrix[inputIdx]\<close>.
\<close>

definition getCostBreakdown ::
  "Commodity list \<Rightarrow> matrix \<Rightarrow> number \<Rightarrow> ComputedMetrics \<Rightarrow> nat
     \<Rightarrow> error + CostBreakdown option" where
  "getCostBreakdown commodities mat profitRate m idx =
     (if length (prices m) = 0 then Inr None
      else if length commodities \<le> idx \<or> length mat < length commodities then Inl TypeError
      else
        (let price0 = (if idx < length (prices m) then Some (prices m ! idx) else None);
             constantCapitalValue0 =
               foldl (\<lambda>ccv inputIdx.
                   let inputAmount = elemAt (mat ! inputIdx) idx;
                       output = totalOutput (commodities ! idx);
                       a_ij = (if 0 < output then inputAmount / output else 0)
                   in ccv + priceOr0 (prices m) inputIdx * a_ij)
                 0 [0 ..< length commodities];
             profit0 = constantCapitalValue0 * profitRate;
             wageCost0 =
               (laborInput (commodities ! idx) / totalOutput (commodities ! idx)) * wage m
         in Inr (Some \<lparr>constantCapitalValue = constantCapitalValue0, profit = profit0,
                        wageCost = wageCost0, price = price0\<rparr>)))"

section \<open>The eigenvalue estimator as the specification words it\<close>

text \<open>
  The algorithm of the specification, on vectors and matrices as wholes: the product
  \<open>A\<cdot>v\<close> row by row, the Euclidean norm, a fixed number of normalising iterations that
  stops with 0 as soon as the norm falls below \<^verbatim>\<open>1e-12\<close>, and the Rayleigh quotient
  \<open>v\<^sup>t\<cdot>A\<cdot>v\<close> without a denominator.
\<close>

definition dot :: "vector \<Rightarrow> vector \<Rightarrow> number" where
  "dot xs ys = foldl (\<lambda>acc (x, y). acc + x * y) 0 (zip xs ys)"

definition spec_matVec :: "matrix \<Rightarrow> vector \<Rightarrow> vector" where
  "spec_matVec A v = map (\<lambda>row. dot row v) A"

definition spec_norm :: "vector \<Rightarrow> number" where
  "spec_norm w = Math_sqrt (foldl (\<lambda>s x. s + pow2 x) 0 w)"

fun spec_iterate :: "nat \<Rightarrow> matrix \<Rightarrow> vector \<Rightarrow> vector option" where
  "spec_iterate 0 A v = Some v"
| "spec_iterate (Suc k) A v =
     (let w = spec_matVec A v
      in if spec_norm w < Fin (1 / 10 ^ 12) then None
         else spec_iterate k A (map (\<lambda>x. x / spec_norm w) w))"

definition spec_dominantEigenvalue :: "matrix \<Rightarrow> number" where
  "spec_dominantEigenvalue A =
     (let n = length A
      in if n = 0 then 0
         else (case spec_iterate 1000 A (replicate n (Fin 1 / Math_sqrt (Fin (real n)))) of
                 None \<Rightarrow> 0
               | Some v \<Rightarrow> dot v (spec_matVec A v)))"

section \<open>Notions for the solver's properties\<close>

text \<open>
  The matrix at the start of step \<open>k\<close> of the elimination, were no step to return early,
  and the pivot of step \<open>k\<close>: the diagonal entry after the row selected by the pivot
  search has been swapped into place.
\<close>

fun augAt :: "nat \<Rightarrow> matrix \<Rightarrow> nat \<Rightarrow> matrix" where
  "augAt n aug 0 = aug"
| "augAt n aug (Suc k) =
     eliminate n k (swapRows k (findPivot n k (augAt n aug k)) (augAt n aug k))"

definition pivotAt :: "nat \<Rightarrow> matrix \<Rightarrow> nat \<Rightarrow> number" where
  "pivotAt n aug k =
     (let a = augAt n aug k
      in elemAt (swapRows k (findPivot n k a) a ! k) k)"

text \<open>The real value of a finite number.\<close>

fun val :: "number \<Rightarrow> real" where
  "val (Fin a) = a"
| "val PInf = 0"
| "val NInf = 0"
| "val NaN = 0"

text \<open>An augmented matrix of \<open>n\<close> rows and \<open>n + 1\<close> columns, and one whose first \<open>c\<close>
  columns hold finite numbers.\<close>

definition wfAug :: "nat \<Rightarrow> matrix \<Rightarrow> bool" where
  "wfAug n aug = (length aug = n \<and> list_all (\<lambda>row. length row = n + 1) aug)"

definition finCols :: "nat \<Rightarrow> nat \<Rightarrow> matrix \<Rightarrow> bool" where
  "finCols n c aug = (\<forall>k<n. \<forall>j<c. isFinite (aug ! k ! j))"

text \<open>
  The shape the elimination works towards: zeros below the diagonal in the first \<open>i\<close>
  columns, nonzero pivots on the first \<open>i\<close> diagonal places; and what it is to solve the
  system an augmented matrix stands for.
\<close>

definition lowerZero :: "nat \<Rightarrow> nat \<Rightarrow> matrix \<Rightarrow> bool" where
  "lowerZero n i aug = (\<forall>k<n. \<forall>j<i. j < k \<longrightarrow> aug ! k ! j = Fin 0)"

definition diagNonzero :: "nat \<Rightarrow> matrix \<Rightarrow> bool" where
  "diagNonzero i aug = (\<forall>k<i. aug ! k ! k \<noteq> Fin 0)"

definition solves :: "nat \<Rightarrow> matrix \<Rightarrow> (nat \<Rightarrow> real) \<Rightarrow> bool" where
  "solves n aug x = (\<forall>k<n. (\<Sum>j<n. val (aug ! k ! j) * x j) = val (aug ! k ! n))"

section \<open>Evaluation on concrete inputs\<close>

lemmas js_eval = zero_number_def one_number_def minus_number_def less_eq_number_def
  inverse_number_def strict_eq_def truthy_def pow2_def elemAt_def Let_def

lemmas solver_eval = solveLinearSystem_def augmented_def forward.simps backSubst_def backRow_def
  findPivot_def swapRows_def pivotTol_def eliminate_def elimRow_def assignAt_def

lemmas model_eval = metrics_def calculateMaxProfitRate_def calculateSraffianPrices_def
  coefficientMatrix_def unitLabor_def systemMatrix_def priceOr0_def

section \<open>The empty system\<close>

text \<open>
  Claim C10. For the empty system (no commodities, empty matrix, empty labor and output
  vectors) the solver returns the empty solution, not \<^verbatim>\<open>null\<close>, and
  \<^verbatim>\<open>calculateSraffianPrices\<close> returns the empty price vector with \<open>isValid = true\<close>,
  for every profit rate and wage. A singular system (one commodity that consumes its
  whole output, at \<open>r = 0\<close>) returns the same empty price vector with
  \<open>isValid = false\<close>: the two outcomes differ in the flag only.
\<close>

theorem empty_system_valid:
  "solveLinearSystem [] [] = Inr (Some [])
   \<and> calculateSraffianPrices [] [] [] r w = Inr \<lparr>prices = [], isValid = True\<rparr>
   \<and> calculateSraffianPrices [[Fin 1]] [Fin 1] [Fin 1] (Fin 0) w
       = Inr \<lparr>prices = [], isValid = False\<rparr>"
  by (simp add: calculateSraffianPrices_def coefficientMatrix_def unitLabor_def
      systemMatrix_def solveLinearSystem_def augmented_def forward.simps backSubst_def elemAt_def
      strict_eq_def zero_number_def one_number_def minus_number_def findPivot_def
      swapRows_def pivotTol_def)

section \<open>The price system\<close>

lemma strict_eq_zero [simp]: "strict_eq x 0 \<longleftrightarrow> x = 0"
  by (auto simp: strict_eq_def zero_number_def)

lemma coefficientMatrix_Inr:
  assumes "length totalOutputs \<le> length physicalMatrix"
  shows "\<exists>A. coefficientMatrix physicalMatrix totalOutputs = Inr A
     \<and> length A = length totalOutputs
     \<and> (\<forall>i<length totalOutputs. length (A ! i) = length totalOutputs
          \<and> (\<forall>j<length totalOutputs. A ! i ! j =
             (if totalOutputs ! j = 0 then 0
              else elemAt (physicalMatrix ! i) j / totalOutputs ! j)))"
  using assms by (simp add: coefficientMatrix_def Let_def)

lemma systemMatrix_nth:
  assumes "row < n" "col < n"
  shows "systemMatrix n A r ! row ! col =
     (if row = col then 1 - (1 + r) * A ! col ! row else - (1 + r) * A ! col ! row)"
  using assms by (simp add: systemMatrix_def Let_def)

lemma systemMatrix_length: "length (systemMatrix n A r) = n"
  by (simp add: systemMatrix_def Let_def)

lemma systemMatrix_row_length: "row < n \<Longrightarrow> length (systemMatrix n A r ! row) = n"
  by (simp add: systemMatrix_def Let_def)

text \<open>
  Claim C1. For an \<open>n \<times> n\<close> input matrix and \<open>n\<close> total outputs, the matrix \<open>S\<close> that
  \<^verbatim>\<open>calculateSraffianPrices\<close> hands to the solver is \<open>n \<times> n\<close> and reads the coefficient
  matrix transposed: \<open>S[row][col]\<close> is \<open>1 - (1+r)\<cdot>A[col][row]\<close> on the diagonal and
  \<open>-(1+r)\<cdot>A[col][row]\<close> elsewhere, where \<open>A[col][row]\<close> is
  \<open>inputMatrix[col][row] / totalOutputs[row]\<close>, and 0 when \<open>totalOutputs[row]\<close> is 0.
\<close>

theorem system_matrix_transposed:
  assumes "length totalOutputs = n" and "length physicalMatrix = n"
    and "\<forall>row \<in> set physicalMatrix. length row = n"
  shows "\<exists>S. length S = n \<and> (\<forall>row<n. length (S ! row) = n)
     \<and> (\<forall>row<n. \<forall>col<n. S ! row ! col =
          (let a = (if totalOutputs ! row = 0 then 0
                    else physicalMatrix ! col ! row / totalOutputs ! row)
           in if row = col then 1 - (1 + r) * a else - (1 + r) * a))
     \<and> calculateSraffianPrices physicalMatrix laborVector totalOutputs r w =
         (case solveLinearSystem S (unitLabor laborVector totalOutputs w) of
            Inl e \<Rightarrow> Inl e
          | Inr None \<Rightarrow> Inr \<lparr>prices = [], isValid = False\<rparr>
          | Inr (Some P) \<Rightarrow>
              Inr \<lparr>prices = P, isValid = list_all (\<lambda>p. Fin (- (1 / 10 ^ 6)) < p) P\<rparr>)"
proof -
  from assms obtain A where A: "coefficientMatrix physicalMatrix totalOutputs = Inr A"
    and Aij: "\<And>i j. i < n \<Longrightarrow> j < n \<Longrightarrow> A ! i ! j =
             (if totalOutputs ! j = 0 then 0
              else elemAt (physicalMatrix ! i) j / totalOutputs ! j)"
    using coefficientMatrix_Inr [of totalOutputs physicalMatrix] by auto
  have el: "elemAt (physicalMatrix ! i) j = physicalMatrix ! i ! j" if "i < n" "j < n" for i j
    using that assms by (simp add: elemAt_def)
  let ?S = "systemMatrix n A r"
  have "\<forall>row<n. \<forall>col<n. ?S ! row ! col =
          (let a = (if totalOutputs ! row = 0 then 0
                    else physicalMatrix ! col ! row / totalOutputs ! row)
           in if row = col then 1 - (1 + r) * a else - (1 + r) * a)"
    by (simp add: systemMatrix_nth Aij el Let_def)
  moreover have "calculateSraffianPrices physicalMatrix laborVector totalOutputs r w =
         (case solveLinearSystem ?S (unitLabor laborVector totalOutputs w) of
            Inl e \<Rightarrow> Inl e
          | Inr None \<Rightarrow> Inr \<lparr>prices = [], isValid = False\<rparr>
          | Inr (Some P) \<Rightarrow>
              Inr \<lparr>prices = P, isValid = list_all (\<lambda>p. Fin (- (1 / 10 ^ 6)) < p) P\<rparr>)"
    using assms(1) by (simp add: calculateSraffianPrices_def A Let_def)
  ultimately show ?thesis
    using systemMatrix_length [of n A r] systemMatrix_row_length [of _ n A r] by blast
qed


theorem system_matrix_transposed_witness:
  "\<exists>S. length S = 2 \<and> (\<forall>row<2. length (S ! row) = 2)
     \<and> S ! 0 ! 1 = - (1 + Fin (15 / 100)) * (Fin 12 / Fin 575)
     \<and> S ! 1 ! 0 = - (1 + Fin (15 / 100)) * (Fin 120 / Fin 20)
     \<and> S ! 1 ! 1 = 1 - (1 + Fin (15 / 100)) * (Fin 8 / Fin 20)
     \<and> calculateSraffianPrices [[Fin 280, Fin 120], [Fin 12, Fin 8]] [Fin 18, Fin 12]
           [Fin 575, Fin 20] (Fin (15 / 100)) (Fin 1) =
         (case solveLinearSystem S (unitLabor [Fin 18, Fin 12] [Fin 575, Fin 20] (Fin 1)) of
            Inl e \<Rightarrow> Inl e
          | Inr None \<Rightarrow> Inr \<lparr>prices = [], isValid = False\<rparr>
          | Inr (Some P) \<Rightarrow>
              Inr \<lparr>prices = P, isValid = list_all (\<lambda>p. Fin (- (1 / 10 ^ 6)) < p) P\<rparr>)"
proof -
  have h1: "length [Fin 575, Fin 20] = (2::nat)" by simp
  have h2: "length [[Fin 280, Fin 120], [Fin 12, Fin 8]] = (2::nat)" by simp
  have h3: "\<forall>row \<in> set [[Fin 280, Fin 120], [Fin 12, Fin 8]]. length row = (2::nat)" by simp
  from system_matrix_transposed [OF h1 h2 h3, of "Fin (15 / 100)" "[Fin 18, Fin 12]" "Fin 1"]
  obtain S where S: "length S = 2" "\<forall>row<2. length (S ! row) = 2"
    "\<forall>row<2. \<forall>col<2. S ! row ! col =
          (let a = (if [Fin 575, Fin 20] ! row = 0 then 0
                    else [[Fin 280, Fin 120], [Fin 12, Fin 8]] ! col ! row / [Fin 575, Fin 20] ! row)
           in if row = col then 1 - (1 + Fin (15 / 100)) * a else - (1 + Fin (15 / 100)) * a)"
    "calculateSraffianPrices [[Fin 280, Fin 120], [Fin 12, Fin 8]] [Fin 18, Fin 12]
           [Fin 575, Fin 20] (Fin (15 / 100)) (Fin 1) =
         (case solveLinearSystem S (unitLabor [Fin 18, Fin 12] [Fin 575, Fin 20] (Fin 1)) of
            Inl e \<Rightarrow> Inl e
          | Inr None \<Rightarrow> Inr \<lparr>prices = [], isValid = False\<rparr>
          | Inr (Some P) \<Rightarrow>
              Inr \<lparr>prices = P, isValid = list_all (\<lambda>p. Fin (- (1 / 10 ^ 6)) < p) P\<rparr>)"
    by blast
  have "S ! 0 ! 1 = - (1 + Fin (15 / 100)) * (Fin 12 / Fin 575)"
    using S(3) [rule_format, of 0 1] by (simp add: zero_number_def)
  moreover have "S ! 1 ! 0 = - (1 + Fin (15 / 100)) * (Fin 120 / Fin 20)"
    using S(3) [rule_format, of 1 0] by (simp add: zero_number_def)
  moreover have "S ! 1 ! 1 = 1 - (1 + Fin (15 / 100)) * (Fin 8 / Fin 20)"
    using S(3) [rule_format, of 1 1] by (simp add: zero_number_def)
  ultimately show ?thesis using S(1,2,4) by blast
qed

lemma solveLinearSystem_no_error:
  "length b = length A \<Longrightarrow> \<exists>res. solveLinearSystem A b = Inr res"
  by (simp add: solveLinearSystem_def Let_def split: option.splits)

lemma unitLabor_length: "length (unitLabor laborVector totalOutputs w) = length totalOutputs"
  by (simp add: unitLabor_def)

text \<open>
  Claim C3. With \<open>S\<close> the system matrix and \<open>l\<close> the unit labor vector of the input, the
  solver does not raise; \<^verbatim>\<open>calculateSraffianPrices\<close> returns the empty vector with
  \<open>isValid = false\<close> exactly when the solver returns no solution; and when the solver
  returns \<open>P\<close> the result carries \<open>P\<close> itself, valid or not, with \<open>isValid\<close> true exactly
  when every entry of \<open>P\<close> is above \<^verbatim>\<open>-1e-6\<close>.
\<close>

theorem prices_outcome:
  assumes "coefficientMatrix physicalMatrix totalOutputs = Inr A"
    and "S = systemMatrix (length totalOutputs) A r"
    and "l = unitLabor laborVector totalOutputs w"
  shows "(\<exists>res. solveLinearSystem S l = Inr res)
     \<and> (calculateSraffianPrices physicalMatrix laborVector totalOutputs r w
           = Inr \<lparr>prices = [], isValid = False\<rparr>
         \<longleftrightarrow> solveLinearSystem S l = Inr None)
     \<and> (\<forall>P. solveLinearSystem S l = Inr (Some P) \<longrightarrow>
           calculateSraffianPrices physicalMatrix laborVector totalOutputs r w
           = Inr \<lparr>prices = P, isValid = (\<forall>p \<in> set P. Fin (- (1 / 10 ^ 6)) < p)\<rparr>)"
proof -
  have len: "length l = length S"
    using assms by (simp add: unitLabor_length systemMatrix_length)
  then obtain res where res: "solveLinearSystem S l = Inr res"
    using solveLinearSystem_no_error by blast
  have calc: "calculateSraffianPrices physicalMatrix laborVector totalOutputs r w =
      (case res of None \<Rightarrow> Inr \<lparr>prices = [], isValid = False\<rparr>
       | Some P \<Rightarrow> Inr \<lparr>prices = P, isValid = (\<forall>p \<in> set P. Fin (- (1 / 10 ^ 6)) < p)\<rparr>)"
    using assms res by (simp add: calculateSraffianPrices_def Let_def list_all_iff split: option.splits)
  show ?thesis
    using res calc by (cases res) auto
qed


theorem prices_outcome_witness:
  "calculateSraffianPrices [[Fin 1]] [Fin 1] [Fin 1] (Fin 1) (Fin 1)
     = Inr \<lparr>prices = [Fin (- 1)], isValid = (\<forall>p \<in> set [Fin (- 1)]. Fin (- (1 / 10 ^ 6)) < p)\<rparr>
   \<and> \<not> (\<forall>p \<in> set [Fin (- 1)]. Fin (- (1 / 10 ^ 6)) < p)"
proof -
  have c: "coefficientMatrix [[Fin 1]] [Fin 1] = Inr [[Fin 1]]"
    by (simp add: coefficientMatrix_def elemAt_def zero_number_def strict_eq_def Let_def)
  have s: "solveLinearSystem (systemMatrix (length [Fin 1]) [[Fin 1]] (Fin 1))
             (unitLabor [Fin 1] [Fin 1] (Fin 1)) = Inr (Some [Fin (- 1)])"
    by (simp add: unitLabor_def systemMatrix_def solveLinearSystem_def augmented_def forward.simps
        backSubst_def backRow_def elemAt_def zero_number_def one_number_def minus_number_def
        findPivot_def swapRows_def pivotTol_def eliminate_def strict_eq_def Let_def)
  from prices_outcome [OF c refl refl, where r = "Fin 1" and laborVector = "[Fin 1]" and w = "Fin 1"] s show ?thesis
    by simp
qed

section \<open>The dominant eigenvalue\<close>

lemma foldl_upt_nth:
  "foldl (\<lambda>acc j. g acc (xs ! j)) a [0 ..< length xs] = foldl g a xs"
proof (induction xs rule: rev_induct)
  case Nil
  show ?case by simp
next
  case (snoc x xs)
  have "foldl (\<lambda>acc j. g acc ((xs @ [x]) ! j)) a [0 ..< length xs]
      = foldl (\<lambda>acc j. g acc (xs ! j)) a [0 ..< length xs]"
    by (rule foldl_cong) (auto simp: nth_append)
  with snoc show ?case by simp
qed

lemma dot_upt:
  assumes "length xs = n" "length ys = n"
  shows "foldl (\<lambda>acc j. acc + xs ! j * ys ! j) 0 [0 ..< n] = dot xs ys"
proof -
  have "foldl (\<lambda>acc j. (\<lambda>acc (x, y). acc + x * y) acc (zip xs ys ! j)) 0 [0 ..< length (zip xs ys)]
      = dot xs ys"
    unfolding dot_def by (rule foldl_upt_nth)
  moreover have "foldl (\<lambda>acc j. (\<lambda>acc (x, y). acc + x * y) acc (zip xs ys ! j)) 0 [0 ..< length (zip xs ys)]
      = foldl (\<lambda>acc j. acc + xs ! j * ys ! j) 0 [0 ..< n]"
    using assms by (intro foldl_cong) auto
  ultimately show ?thesis by simp
qed

lemma matVec_spec:
  assumes "length A = n" "\<forall>row \<in> set A. length row = n" "length v = n"
  shows "matVec n A v = spec_matVec A v"
proof -
  have "foldl (\<lambda>acc j. acc + elemAt (A ! i) j * v ! j) 0 [0 ..< n] = dot (A ! i) v"
    if "i < n" for i
  proof -
    have li: "length (A ! i) = n" using that assms by simp
    have "foldl (\<lambda>acc j. acc + elemAt (A ! i) j * v ! j) 0 [0 ..< n]
        = foldl (\<lambda>acc j. acc + A ! i ! j * v ! j) 0 [0 ..< n]"
      using li by (intro foldl_cong) (auto simp: elemAt_def)
    then show ?thesis using dot_upt [OF li assms(3)] by simp
  qed
  then have "matVec n A v = map (\<lambda>i. dot (A ! i) v) [0 ..< length A]"
    using assms(1) by (simp add: matVec_def)
  also have "\<dots> = map (\<lambda>row. dot row v) (map (\<lambda>i. A ! i) [0 ..< length A])"
    by (simp add: o_def)
  also have "\<dots> = spec_matVec A v"
    unfolding spec_matVec_def by (simp only: map_nth)
  finally show ?thesis .
qed


lemma matVec_length: "length (matVec n A v) = n"
  by (simp add: matVec_def)

lemma vecNorm_spec: "length w = n \<Longrightarrow> vecNorm n w = spec_norm w"
  unfolding vecNorm_def spec_norm_def
  using foldl_upt_nth [of "\<lambda>s x. s + pow2 x" w 0] by simp

lemma powerLoop_spec:
  assumes "length A = n" "\<forall>row \<in> set A. length row = n"
  shows "length v = n \<Longrightarrow> iter + k = 1000 \<Longrightarrow> powerLoop n A iter v = spec_iterate k A v"
proof (induction k arbitrary: iter v)
  case 0
  then show ?case by (simp add: powerLoop.simps)
next
  case (Suc k)
  then have lt: "iter < 1000" by simp
  have mv: "matVec n A v = spec_matVec A v"
    using assms Suc.prems(1) by (rule matVec_spec)
  have lw: "length (spec_matVec A v) = n"
    using mv matVec_length [of n A v] by simp
  have nw: "vecNorm n (spec_matVec A v) = spec_norm (spec_matVec A v)"
    using lw by (rule vecNorm_spec)
  have mp: "map (\<lambda>i. spec_matVec A v ! i / c) [0 ..< n] = map (\<lambda>x. x / c) (spec_matVec A v)" for c
    using lw by (intro nth_equalityI) simp_all
  have "powerLoop n A (iter + 1) (map (\<lambda>x. x / c) (spec_matVec A v))
          = spec_iterate k A (map (\<lambda>x. x / c) (spec_matVec A v))" for c
    using Suc.prems lw by (intro Suc.IH) simp_all
  with lt show ?case
    by (subst powerLoop.simps) (simp add: mv nw normTol_def Let_def mp)
qed

text \<open>
  Claim C7. On every square matrix \<^verbatim>\<open>getDominantEigenvalue\<close> computes what the algorithm
  of the specification computes: 0 for the empty matrix; otherwise it starts from the
  vector with every entry \<open>1/\<surd>n\<close>, runs 1000 iterations of \<open>w = A\<cdot>v\<close>, returning 0 at once
  when the norm of \<open>w\<close> is below \<^verbatim>\<open>1e-12\<close> and continuing with \<open>w / norm\<close> otherwise, and
  returns \<open>v\<^sup>t\<cdot>A\<cdot>v\<close> after the last iteration.
\<close>

theorem dominant_eigenvalue_algorithm:
  assumes "\<forall>row \<in> set A. length row = length A"
  shows "getDominantEigenvalue A = spec_dominantEigenvalue A"
proof (cases "length A = 0")
  case True
  then show ?thesis
    by (simp add: getDominantEigenvalue_def spec_dominantEigenvalue_def)
next
  case False
  let ?n = "length A"
  let ?v0 = "replicate ?n (Fin 1 / Math_sqrt (Fin (real ?n)))"
  have loop: "powerLoop ?n A 0 ?v0 = spec_iterate 1000 A ?v0"
    using powerLoop_spec [OF refl assms, of ?v0 0 1000] by simp
  have fin: "foldl (\<lambda>lambda i. lambda + v ! i * matVec ?n A v ! i) 0 [0 ..< ?n]
      = dot v (spec_matVec A v)" if "length v = ?n" for v
    using dot_upt [OF that, of "matVec ?n A v"] matVec_length [of ?n A v]
      matVec_spec [OF refl assms that] by simp
  have len: "length v = ?n" if "spec_iterate k A u = Some v" "length u = ?n" for k u v
    using that
  proof (induction k arbitrary: u)
    case 0
    then show ?case by simp
  next
    case (Suc k)
    have "length (spec_matVec A u) = ?n" by (simp add: spec_matVec_def)
    with Suc show ?case
      by (auto simp: Let_def split: if_splits)
  qed
  show ?thesis
  proof (cases "spec_iterate 1000 A ?v0")
    case None
    with False loop show ?thesis
      by (simp add: getDominantEigenvalue_def spec_dominantEigenvalue_def Let_def)
  next
    case (Some v)
    then have "length v = ?n" using len [of 1000 ?v0 v] by simp
    with Some False loop fin [of v] show ?thesis
      by (simp add: getDominantEigenvalue_def spec_dominantEigenvalue_def Let_def)
  qed
qed


lemma spec_iterate_unit: "spec_iterate k [[Fin 1]] [Fin 1] = Some [Fin 1]"
  by (induction k) (simp_all add: spec_matVec_def dot_def spec_norm_def js_eval)

theorem dominant_eigenvalue_algorithm_witness:
  "getDominantEigenvalue [[Fin 1]] = Fin 1 \<and> getDominantEigenvalue [[Fin 0]] = Fin 0"
proof -
  have h1: "\<forall>row \<in> set [[Fin 1]]. length row = length [[Fin 1]]" by simp
  have h0: "\<forall>row \<in> set [[Fin 0]]. length row = length [[Fin 0]]" by simp
  have s1: "spec_dominantEigenvalue [[Fin 1]] = Fin 1"
    by (simp add: spec_dominantEigenvalue_def spec_iterate_unit spec_matVec_def dot_def js_eval)
  have "spec_iterate (Suc k) [[Fin 0]] [Fin 1] = None" for k
    by (simp add: spec_matVec_def dot_def spec_norm_def js_eval)
  from this [of 999] have "spec_iterate 1000 [[Fin 0]] [Fin 1] = None"
    by simp
  then have s0: "spec_dominantEigenvalue [[Fin 0]] = Fin 0"
    by (simp add: spec_dominantEigenvalue_def js_eval)
  show ?thesis
    using dominant_eigenvalue_algorithm [OF h1] dominant_eigenvalue_algorithm [OF h0] s1 s0
    by simp
qed




lemma powerLoop_zero: "powerLoop (Suc 0) [[Fin 0]] 0 [Fin 1] = None"
  by (subst powerLoop.simps) (simp add: matVec_def vecNorm_def normTol_def js_eval)

lemma eigen_zero: "getDominantEigenvalue [[Fin 0]] = Fin 0"
  by (simp add: getDominantEigenvalue_def powerLoop_zero js_eval)

section \<open>The maximum profit rate\<close>

text \<open>
  Claim C4. When the input matrix has a row for every entry of \<open>totalOutputs\<close>,
  \<^verbatim>\<open>calculateMaxProfitRate\<close> builds the coefficient matrix \<open>A\<close>
  (\<open>A[i][j] = physicalMatrix[i][j] / totalOutputs[j]\<close>, and 0 when \<open>totalOutputs[j]\<close> is
  0), takes \<open>\<lambda> = getDominantEigenvalue A\<close>, and returns the sentinel 100 when
  \<open>\<lambda> \<le> 1e-9\<close> and \<open>1/\<lambda> - 1\<close> otherwise. It returns a number in either case: the degenerate
  case yields the sentinel and does not fail.
\<close>

theorem max_profit_rate_cases:
  assumes "length totalOutputs \<le> length physicalMatrix"
  shows "\<exists>A. length A = length totalOutputs
     \<and> (\<forall>i<length totalOutputs. length (A ! i) = length totalOutputs
          \<and> (\<forall>j<length totalOutputs. A ! i ! j =
             (if totalOutputs ! j = 0 then 0
              else elemAt (physicalMatrix ! i) j / totalOutputs ! j)))
     \<and> calculateMaxProfitRate physicalMatrix totalOutputs =
         Inr (if getDominantEigenvalue A \<le> Fin (1 / 10 ^ 9) then Fin 100
              else Fin 1 / getDominantEigenvalue A - Fin 1)"
proof -
  from coefficientMatrix_Inr [OF assms] obtain A where
    A: "coefficientMatrix physicalMatrix totalOutputs = Inr A"
    and rest: "length A = length totalOutputs"
      "\<forall>i<length totalOutputs. length (A ! i) = length totalOutputs
          \<and> (\<forall>j<length totalOutputs. A ! i ! j =
             (if totalOutputs ! j = 0 then 0
              else elemAt (physicalMatrix ! i) j / totalOutputs ! j))"
    by blast
  have "calculateMaxProfitRate physicalMatrix totalOutputs =
         Inr (if getDominantEigenvalue A \<le> Fin (1 / 10 ^ 9) then Fin 100
              else Fin 1 / getDominantEigenvalue A - Fin 1)"
    by (simp add: calculateMaxProfitRate_def A Let_def)
  with rest show ?thesis by blast
qed

theorem max_profit_rate_cases_witness:
  "calculateMaxProfitRate [[Fin 0]] [Fin 5] = Inr (Fin 100)"
proof -
  have h: "length [Fin 5] \<le> length [[Fin 0]]" by simp
  from max_profit_rate_cases [OF h] obtain A where
    l: "length A = 1" "length (A ! 0) = 1" and a: "A ! 0 ! 0 = Fin 0"
    and c: "calculateMaxProfitRate [[Fin 0]] [Fin 5] =
         Inr (if getDominantEigenvalue A \<le> Fin (1 / 10 ^ 9) then Fin 100
              else Fin 1 / getDominantEigenvalue A - Fin 1)"
    by (auto simp: js_eval)
  from l a have "A = [[Fin 0]]"
    by (cases A; cases "hd A") auto
  with c show ?thesis by (simp add: eigen_zero js_eval)
qed


section \<open>National accounts\<close>







section \<open>Cost breakdown and zero outputs\<close>

text \<open>
  Claim C2, at a failing input. One commodity with total output 0 and labor input 1, the
  matrix \<open>[[0]]\<close>, \<open>r = 0.15\<close> and \<open>w = 1\<close>: the prices are valid (\<open>[0]\<close>), and the cost
  breakdown of commodity 0 has capital value 0, profit 0 and wage cost \<open>1/0 = Infinity\<close>,
  whose sum is not the price 0.
\<close>

theorem cost_breakdown_zero_output:
  "metrics [\<lparr>commodity_id = Fin 1, name = ''Wheat'', totalOutput = Fin 0, laborInput = Fin 1\<rparr>]
      [[Fin 0]] (Fin (15 / 100)) (Fin 1)
     = Inr \<lparr>prices = [Fin 0], isValid = True, wage = Fin 1, maxProfitRate = Some (Fin 100)\<rparr>
   \<and> getCostBreakdown
      [\<lparr>commodity_id = Fin 1, name = ''Wheat'', totalOutput = Fin 0, laborInput = Fin 1\<rparr>]
      [[Fin 0]] (Fin (15 / 100))
      \<lparr>prices = [Fin 0], isValid = True, wage = Fin 1, maxProfitRate = Some (Fin 100)\<rparr> 0
     = Inr (Some \<lparr>constantCapitalValue = Fin 0, profit = Fin 0, wageCost = PInf,
                  price = Some (Fin 0)\<rparr>)
   \<and> Fin 0 + Fin 0 + PInf \<noteq> Fin 0"
  by (simp add: getCostBreakdown_def model_eval solver_eval powerLoop_zero
      getDominantEigenvalue_def js_eval)

text \<open>
  Claim C8, at a failing input. With total output 0 the coefficient (input 3) and the unit
  labor (labor 1) are defined as 0, and so is the coefficient inside the cost breakdown,
  but the wage cost of the breakdown divides by the output all the same and is
  \<open>Infinity\<close>, which is not finite.
\<close>

theorem zero_output_wage_cost_not_finite:
  "coefficientMatrix [[Fin 3]] [Fin 0] = Inr [[Fin 0]]
   \<and> unitLabor [Fin 1] [Fin 0] (Fin 1) = [Fin 0]
   \<and> metrics [\<lparr>commodity_id = Fin 1, name = ''Wheat'', totalOutput = Fin 0, laborInput = Fin 1\<rparr>]
      [[Fin 3]] (Fin (15 / 100)) (Fin 1)
     = Inr \<lparr>prices = [Fin 0], isValid = True, wage = Fin 1, maxProfitRate = Some (Fin 100)\<rparr>
   \<and> getCostBreakdown
      [\<lparr>commodity_id = Fin 1, name = ''Wheat'', totalOutput = Fin 0, laborInput = Fin 1\<rparr>]
      [[Fin 3]] (Fin (15 / 100))
      \<lparr>prices = [Fin 0], isValid = True, wage = Fin 1, maxProfitRate = Some (Fin 100)\<rparr> 0
     = Inr (Some \<lparr>constantCapitalValue = Fin 0, profit = Fin 0, wageCost = PInf,
                  price = Some (Fin 0)\<rparr>)
   \<and> \<not> isFinite PInf"
  by (simp add: getCostBreakdown_def model_eval solver_eval powerLoop_zero
      getDominantEigenvalue_def js_eval)

section \<open>The linear solver\<close>

lemma wfAugD: "wfAug n aug \<Longrightarrow> k < n \<Longrightarrow> length (aug ! k) = n + 1"
  by (simp add: wfAug_def list_all_length)

lemma wfAug_length: "wfAug n aug \<Longrightarrow> length aug = n"
  by (simp add: wfAug_def)

lemma wfAugI: "length aug = n \<Longrightarrow> (\<And>k. k < n \<Longrightarrow> length (aug ! k) = n + 1) \<Longrightarrow> wfAug n aug"
  by (simp add: wfAug_def list_all_length)

subsection \<open>One row\<close>

lemma elimRow_loop:
  assumes "length row = n + 1" "m \<le> n + 1"
  shows "length (foldl (\<lambda>r j. assignAt r j (elemAt r j - f * elemAt prow j)) row [i ..< m]) = n + 1
    \<and> (\<forall>j \<le> n. foldl (\<lambda>r j. assignAt r j (elemAt r j - f * elemAt prow j)) row [i ..< m] ! j =
          (if i \<le> j \<and> j < m then row ! j - f * elemAt prow j else row ! j))"
  using assms(2)
proof (induction m)
  case 0
  then show ?case using assms(1) by simp
next
  case (Suc m)
  show ?case
  proof (cases "i \<le> m")
    case False
    then show ?thesis using assms(1) by auto
  next
    case True
    let ?r = "foldl (\<lambda>r j. assignAt r j (elemAt r j - f * elemAt prow j)) row [i ..< m]"
    from Suc have IH: "length ?r = n + 1"
      "\<And>j. j \<le> n \<Longrightarrow> ?r ! j = (if i \<le> j \<and> j < m then row ! j - f * elemAt prow j else row ! j)"
      by simp_all
    have m: "m \<le> n" using Suc.prems by simp
    have step: "foldl (\<lambda>r j. assignAt r j (elemAt r j - f * elemAt prow j)) row [i ..< Suc m]
        = ?r[m := row ! m - f * elemAt prow m]"
      using True IH(1) IH(2) [OF m] m by (simp add: assignAt_def elemAt_def)
    show ?thesis
      unfolding step using IH m True by (auto simp: nth_list_update)
  qed
qed

lemma elimRow_length:
  "length row = n + 1 \<Longrightarrow> length (elimRow n i prow row) = n + 1"
  using elimRow_loop [of row n "n + 1"] by (simp add: elimRow_def Let_def)

lemma elimRow_nth:
  assumes "length row = n + 1" "length prow = n + 1" "j \<le> n"
  shows "elimRow n i prow row ! j =
     (if i \<le> j then row ! j - (elemAt row i / elemAt prow i) * prow ! j else row ! j)"
  using elimRow_loop [of row n "n + 1" "elemAt row i / elemAt prow i" prow i] assms
  by (simp add: elimRow_def Let_def elemAt_def)

subsection \<open>All rows below the pivot\<close>

lemma eliminate_loop:
  assumes "length aug = n" "m \<le> n"
  shows "length (foldl (\<lambda>a k. a[k := elimRow n i (a ! i) (a ! k)]) aug [i + 1 ..< m]) = n
    \<and> (\<forall>k < n. foldl (\<lambda>a k. a[k := elimRow n i (a ! i) (a ! k)]) aug [i + 1 ..< m] ! k =
          (if i < k \<and> k < m then elimRow n i (aug ! i) (aug ! k) else aug ! k))"
  using assms(2)
proof (induction m)
  case 0
  then show ?case using assms(1) by simp
next
  case (Suc m)
  show ?case
  proof (cases "i + 1 \<le> m")
    case False
    then show ?thesis using assms(1) by auto
  next
    case True
    let ?a = "foldl (\<lambda>a k. a[k := elimRow n i (a ! i) (a ! k)]) aug [i + 1 ..< m]"
    from Suc have IH: "length ?a = n"
      "\<And>k. k < n \<Longrightarrow> ?a ! k = (if i < k \<and> k < m then elimRow n i (aug ! i) (aug ! k) else aug ! k)"
      by simp_all
    have m: "m < n" "i < n" using Suc.prems True by simp_all
    have step: "foldl (\<lambda>a k. a[k := elimRow n i (a ! i) (a ! k)]) aug [i + 1 ..< Suc m]
        = ?a[m := elimRow n i (aug ! i) (aug ! m)]"
      using True IH(2) [OF m(1)] IH(2) [OF m(2)] by simp
    show ?thesis
      unfolding step using IH m True by (auto simp: nth_list_update)
  qed
qed

lemma eliminate_length: "length aug = n \<Longrightarrow> length (eliminate n i aug) = n"
  using eliminate_loop [of aug n n i] by (simp add: eliminate_def)

lemma eliminate_nth:
  "length aug = n \<Longrightarrow> k < n \<Longrightarrow>
   eliminate n i aug ! k = (if i < k then elimRow n i (aug ! i) (aug ! k) else aug ! k)"
  using eliminate_loop [of aug n n i] by (simp add: eliminate_def)

lemma eliminate_wf: "wfAug n aug \<Longrightarrow> wfAug n (eliminate n i aug)"
  by (rule wfAugI) (auto simp: eliminate_length eliminate_nth elimRow_length wfAug_length dest: wfAugD)

subsection \<open>Pivot search and swap\<close>

lemma findPivot_range: "i < n \<Longrightarrow> i \<le> findPivot n i aug \<and> findPivot n i aug < n"
proof -
  have "i \<le> r \<Longrightarrow> r < n \<Longrightarrow> m \<le> n \<Longrightarrow>
    i \<le> foldl (\<lambda>maxRow k. if \<bar>elemAt (aug ! maxRow) i\<bar> < \<bar>elemAt (aug ! k) i\<bar> then k else maxRow) r [i + 1 ..< m]
    \<and> foldl (\<lambda>maxRow k. if \<bar>elemAt (aug ! maxRow) i\<bar> < \<bar>elemAt (aug ! k) i\<bar> then k else maxRow) r [i + 1 ..< m] < n"
    for r m
  proof (induction m)
    case 0
    then show ?case by simp
  next
    case (Suc m)
    then show ?case by (cases "i + 1 \<le> m") auto
  qed
  from this [of i n] show "i < n \<Longrightarrow> ?thesis"
    by (simp add: findPivot_def)
qed

lemma swapRows_length: "length (swapRows i p aug) = length aug"
  by (simp add: swapRows_def)

lemma swapRows_nth:
  "i < length aug \<Longrightarrow> p < length aug \<Longrightarrow> k < length aug \<Longrightarrow>
   swapRows i p aug ! k = (if k = p then aug ! i else if k = i then aug ! p else aug ! k)"
  by (simp add: swapRows_def nth_list_update)

lemma swapRows_wf: "wfAug n aug \<Longrightarrow> i < n \<Longrightarrow> p < n \<Longrightarrow> wfAug n (swapRows i p aug)"
  by (rule wfAugI) (auto simp: swapRows_length swapRows_nth wfAug_length dest: wfAugD)


subsection \<open>When the solver gives up\<close>

lemma forward_None_iff:
  "i \<le> n \<Longrightarrow>
   forward n i (augAt n aug i) = None
     \<longleftrightarrow> (\<exists>k. i \<le> k \<and> k < n \<and> \<bar>pivotAt n aug k\<bar> < pivotTol)"
proof (induction "n - i" arbitrary: i)
  case 0
  then show ?case by (simp add: forward.simps)
next
  case (Suc d)
  then have lt: "i < n" and d: "d = n - (i + 1)" and le: "i + 1 \<le> n" by simp_all
  show ?case
  proof (cases "\<bar>pivotAt n aug i\<bar> < pivotTol")
    case True
    then have "forward n i (augAt n aug i) = None"
      using lt by (subst forward.simps) (simp add: pivotAt_def Let_def)
    with True lt show ?thesis by auto
  next
    case False
    then have "forward n i (augAt n aug i) = forward n (i + 1) (augAt n aug (i + 1))"
      using lt by (subst forward.simps) (simp add: pivotAt_def Let_def)
    also have "\<dots> = None \<longleftrightarrow> (\<exists>k. i + 1 \<le> k \<and> k < n \<and> \<bar>pivotAt n aug k\<bar> < pivotTol)"
      using Suc.hyps(1) [OF d le] .
    also have "\<dots> \<longleftrightarrow> (\<exists>k. i \<le> k \<and> k < n \<and> \<bar>pivotAt n aug k\<bar> < pivotTol)"
      using False by (metis Suc_eq_plus1 Suc_leI le_neq_implies_less Suc_leD)
    finally show ?thesis .
  qed
qed

lemma isFinite_iff: "isFinite x \<longleftrightarrow> (\<exists>a. x = Fin a)"
  by (cases x) simp_all

lemma finColsD: "finCols n c aug \<Longrightarrow> k < n \<Longrightarrow> j < c \<Longrightarrow> \<exists>a. aug ! k ! j = Fin a"
  by (simp add: finCols_def isFinite_iff)

lemma swapRows_finCols:
  assumes "finCols n c aug" "length aug = n" "i < n" "p < n"
  shows "finCols n c (swapRows i p aug)"
  using assms by (simp add: finCols_def swapRows_nth)


lemma eliminate_entry:
  assumes "wfAug n aug" "i < n" "k < n" "j \<le> n"
  shows "eliminate n i aug ! k ! j =
    (if i < k \<and> i \<le> j then aug ! k ! j - (aug ! k ! i / aug ! i ! i) * aug ! i ! j
     else aug ! k ! j)"
  using assms
  by (simp add: eliminate_nth wfAug_length elimRow_nth wfAugD elemAt_def)

lemma eliminate_finCols:
  assumes "wfAug n aug" "finCols n c aug" "i < n" "n \<le> c" "c \<le> n + 1"
    and "aug ! i ! i \<noteq> Fin 0"
  shows "finCols n c (eliminate n i aug)"
  unfolding finCols_def
proof (intro allI impI)
  fix k j assume kj: "k < n" "j < c"
  then have j: "j \<le> n" using assms(5) by simp
  from assms kj obtain a where a: "aug ! k ! j = Fin a" by (blast dest: finColsD)
  from assms kj obtain b where b: "aug ! k ! i = Fin b" by (metis finColsD less_le_trans)
  from assms obtain p where p: "aug ! i ! i = Fin p" by (metis finColsD less_le_trans)
  from assms kj obtain q where q: "aug ! i ! j = Fin q" by (blast dest: finColsD)
  from p assms(6) have "p \<noteq> 0" by simp
  then show "isFinite (eliminate n i aug ! k ! j)"
    using eliminate_entry [OF assms(1,3) kj(1) j] a b p q
    by (simp add: minus_number_def)
qed



lemma augmented_length: "length b = length A \<Longrightarrow> length (augmented A b) = length A"
  by (simp add: augmented_def)

lemma augmented_nth:
  "length b = length A \<Longrightarrow> k < length A \<Longrightarrow> augmented A b ! k = A ! k @ [b ! k]"
  by (simp add: augmented_def)

lemma augmented_wf:
  assumes "length b = length A" "\<forall>row \<in> set A. length row = length A"
  shows "wfAug (length A) (augmented A b)"
  using assms by (intro wfAugI) (simp_all add: augmented_length augmented_nth)

lemma augmented_entry:
  assumes "length b = length A" "\<forall>row \<in> set A. length row = length A" "k < length A"
  shows "j < length A \<Longrightarrow> augmented A b ! k ! j = A ! k ! j"
    and "augmented A b ! k ! length A = b ! k"
  using assms by (simp_all add: augmented_nth nth_append)





section \<open>The solution the solver returns\<close>

subsection \<open>Row operations keep the solutions\<close>

lemma Fin_val: "isFinite x \<Longrightarrow> Fin (val x) = x"
  by (cases x) simp_all

lemma finCols_val: "finCols n c aug \<Longrightarrow> k < n \<Longrightarrow> j < c \<Longrightarrow> aug ! k ! j = Fin (val (aug ! k ! j))"
  by (simp add: finCols_def Fin_val)

lemma swapRows_solves:
  assumes "length aug = n" "i < n" "p < n" "solves n (swapRows i p aug) x"
  shows "solves n aug x"
  unfolding solves_def
proof (intro allI impI)
  fix k assume k: "k < n"
  define k' where "k' = (if k = i then p else if k = p then i else k)"
  have k': "k' < n" using k assms by (simp add: k'_def)
  have "swapRows i p aug ! k' = aug ! k"
    using assms k by (auto simp: k'_def swapRows_nth)
  with assms(4) k' show "(\<Sum>j<n. val (aug ! k ! j) * x j) = val (aug ! k ! n)"
    unfolding solves_def by metis
qed

lemma eliminate_val:
  assumes "wfAug n aug" "finCols n (n + 1) aug" "i < n" "k < n" "j \<le> n"
    and "aug ! i ! i \<noteq> Fin 0"
  shows "eliminate n i aug ! k ! j =
    Fin (if i < k \<and> i \<le> j
         then val (aug ! k ! j) - val (aug ! k ! i) / val (aug ! i ! i) * val (aug ! i ! j)
         else val (aug ! k ! j))"
proof -
  have a: "aug ! k ! j = Fin (val (aug ! k ! j))" using assms by (intro finCols_val [where n = n and c = "n + 1"]) auto
  have b: "aug ! k ! i = Fin (val (aug ! k ! i))" using assms by (intro finCols_val [where n = n and c = "n + 1"]) auto
  have p: "aug ! i ! i = Fin (val (aug ! i ! i))" using assms by (intro finCols_val [where n = n and c = "n + 1"]) auto
  have q: "aug ! i ! j = Fin (val (aug ! i ! j))" using assms by (intro finCols_val [where n = n and c = "n + 1"]) auto
  from p assms(6) have nz: "val (aug ! i ! i) \<noteq> 0" by auto
  show ?thesis
  proof (cases "i < k \<and> i \<le> j")
    case True
    have "aug ! k ! j - aug ! k ! i / aug ! i ! i * aug ! i ! j =
      Fin (val (aug ! k ! j)) - Fin (val (aug ! k ! i)) / Fin (val (aug ! i ! i)) * Fin (val (aug ! i ! j))"
      using a b p q by simp
    also have "\<dots> = Fin (val (aug ! k ! j) - val (aug ! k ! i) / val (aug ! i ! i) * val (aug ! i ! j))"
      using nz by (simp add: minus_number_def)
    finally show ?thesis
      using True eliminate_entry [OF assms(1,3,4,5)] by simp
  next
    case False
    then show ?thesis
      using eliminate_entry [OF assms(1,3,4,5)] a by auto
  qed
qed

lemma eliminate_solves:
  assumes wf: "wfAug n aug" and fin: "finCols n (n + 1) aug" and i: "i < n"
    and nz: "aug ! i ! i \<noteq> Fin 0"
    and rowi: "\<forall>j<i. aug ! i ! j = Fin 0"
    and sol: "solves n (eliminate n i aug) x"
  shows "solves n aug x"
  unfolding solves_def
proof (intro allI impI)
  fix k assume k: "k < n"
  let ?E = "eliminate n i aug"
  have ev: "val (?E ! k' ! j) = (if i < k' \<and> i \<le> j
         then val (aug ! k' ! j) - val (aug ! k' ! i) / val (aug ! i ! i) * val (aug ! i ! j)
         else val (aug ! k' ! j))" if "k' < n" "j \<le> n" for k' j
    using eliminate_val [OF wf fin i that nz] by simp
  have eqi: "(\<Sum>j<n. val (aug ! i ! j) * x j) = val (aug ! i ! n)"
  proof -
    have "(\<Sum>j<n. val (?E ! i ! j) * x j) = val (?E ! i ! n)"
      using sol i unfolding solves_def by blast
    moreover have "(\<Sum>j<n. val (?E ! i ! j) * x j) = (\<Sum>j<n. val (aug ! i ! j) * x j)"
      by (rule sum.cong) (simp_all add: ev i)
    ultimately show ?thesis by (simp add: ev i)
  qed
  show "(\<Sum>j<n. val (aug ! k ! j) * x j) = val (aug ! k ! n)"
  proof (cases "i < k")
    case False
    have "(\<Sum>j<n. val (?E ! k ! j) * x j) = val (?E ! k ! n)"
      using sol k unfolding solves_def by blast
    moreover have "(\<Sum>j<n. val (?E ! k ! j) * x j) = (\<Sum>j<n. val (aug ! k ! j) * x j)"
      using False by (intro sum.cong) (simp_all add: ev k)
    ultimately show ?thesis using False by (simp add: ev k)
  next
    case True
    define f where "f = val (aug ! k ! i) / val (aug ! i ! i)"
    have row: "val (?E ! k ! j) = val (aug ! k ! j) - f * val (aug ! i ! j)" if "j \<le> n" for j
    proof (cases "i \<le> j")
      case True
      with \<open>i < k\<close> show ?thesis by (simp add: ev k that f_def)
    next
      case False
      then have "aug ! i ! j = Fin 0" using rowi by simp
      with False show ?thesis by (simp add: ev k that)
    qed
    have "(\<Sum>j<n. val (aug ! k ! j) * x j) = (\<Sum>j<n. (val (?E ! k ! j) + f * val (aug ! i ! j)) * x j)"
      by (rule sum.cong) (simp_all add: row)
    also have "\<dots> = (\<Sum>j<n. val (?E ! k ! j) * x j) + f * (\<Sum>j<n. val (aug ! i ! j) * x j)"
      by (simp add: distrib_right sum.distrib sum_distrib_left mult.assoc)
    also have "(\<Sum>j<n. val (?E ! k ! j) * x j) = val (?E ! k ! n)"
      using sol k unfolding solves_def by blast
    also have "val (?E ! k ! n) + f * (\<Sum>j<n. val (aug ! i ! j) * x j) = val (aug ! k ! n)"
      by (simp add: eqi row)
    finally show ?thesis .
  qed
qed


subsection \<open>The invariant of the forward elimination\<close>

lemma swapRows_lowerZero:
  assumes "lowerZero n i aug" "length aug = n" "i < n" "i \<le> p" "p < n"
  shows "lowerZero n i (swapRows i p aug)"
  unfolding lowerZero_def
proof (intro allI impI)
  fix k j assume kj: "k < n" "j < i" "j < k"
  define k' where "k' = (if k = p then i else if k = i then p else k)"
  have "swapRows i p aug ! k = aug ! k'"
    using assms kj by (simp add: k'_def swapRows_nth)
  moreover have "k' < n" "j < k'" using assms kj by (auto simp: k'_def)
  ultimately show "swapRows i p aug ! k ! j = Fin 0"
    using assms(1) kj(2) unfolding lowerZero_def by simp
qed

lemma swapRows_diagNonzero:
  assumes "diagNonzero i aug" "length aug = n" "i < n" "i \<le> p" "p < n"
  shows "diagNonzero i (swapRows i p aug)"
  using assms by (simp add: diagNonzero_def swapRows_nth)

lemma eliminate_lowerZero:
  assumes wf: "wfAug n aug" and fin: "finCols n (n + 1) aug" and i: "i < n"
    and nz: "aug ! i ! i \<noteq> Fin 0" and lz: "lowerZero n i aug"
  shows "lowerZero n (i + 1) (eliminate n i aug)"
  unfolding lowerZero_def
proof (intro allI impI)
  fix k j assume kj: "k < n" "j < i + 1" "j < k"
  then have jn: "j \<le> n" using i by simp
  note ev = eliminate_val [OF wf fin i kj(1) jn nz]
  show "eliminate n i aug ! k ! j = Fin 0"
  proof (cases "j = i")
    case True
    have "aug ! i ! i = Fin (val (aug ! i ! i))"
      using fin i by (intro finCols_val [where n = n and c = "n + 1"]) auto
    with nz have "val (aug ! i ! i) \<noteq> 0" by auto
    with ev True kj show ?thesis by simp
  next
    case False
    with kj have ji: "j < i" by simp
    then have "aug ! k ! j = Fin 0" using lz kj unfolding lowerZero_def by simp
    with ev ji show ?thesis by simp
  qed
qed

lemma eliminate_diagNonzero:
  assumes wf: "wfAug n aug" and fin: "finCols n (n + 1) aug" and i: "i < n"
    and nz: "aug ! i ! i \<noteq> Fin 0" and dz: "diagNonzero i aug"
  shows "diagNonzero (i + 1) (eliminate n i aug)"
  unfolding diagNonzero_def
proof (intro allI impI)
  fix k assume k: "k < i + 1"
  then have kn: "k < n" "k \<le> n" using i by simp_all
  have "eliminate n i aug ! k ! k = aug ! k ! k"
    using eliminate_entry [OF wf i kn] k by simp
  moreover have "aug ! k ! k \<noteq> Fin 0"
    using dz nz k unfolding diagNonzero_def by (cases "k = i") simp_all
  ultimately show "eliminate n i aug ! k ! k \<noteq> Fin 0" by simp
qed

lemma forward_sound:
  assumes "wfAug n aug" "finCols n (n + 1) aug" "lowerZero n i aug" "diagNonzero i aug"
    and "i \<le> n" "forward n i aug = Some aug'"
  shows "wfAug n aug' \<and> finCols n (n + 1) aug' \<and> lowerZero n n aug' \<and> diagNonzero n aug'
    \<and> (\<forall>x. solves n aug' x \<longrightarrow> solves n aug x)"
  using assms
proof (induction "n - i" arbitrary: i aug)
  case 0
  then have "i = n" by simp
  with 0 show ?case by (simp add: forward.simps)
next
  case (Suc d)
  then have lt: "i < n" by simp
  have len: "length aug = n" using Suc.prems(1) by (rule wfAug_length)
  define m where "m = findPivot n i aug"
  define aug1 where "aug1 = swapRows i m aug"
  have m: "i \<le> m" "m < n" using findPivot_range [OF lt, of aug] by (simp_all add: m_def)
  have wf1: "wfAug n aug1"
    unfolding aug1_def using Suc.prems(1) lt m(2) by (rule swapRows_wf)
  have fin1: "finCols n (n + 1) aug1"
    unfolding aug1_def using Suc.prems(2) len lt m(2) by (rule swapRows_finCols)
  have lz1: "lowerZero n i aug1"
    unfolding aug1_def using Suc.prems(3) len lt m by (rule swapRows_lowerZero)
  have dz1: "diagNonzero i aug1"
    unfolding aug1_def using Suc.prems(4) len lt m by (rule swapRows_diagNonzero)
  have unfold: "forward n i aug =
      (if \<bar>elemAt (aug1 ! i) i\<bar> < pivotTol then None
       else forward n (i + 1) (eliminate n i aug1))"
    using lt by (subst forward.simps) (simp add: Let_def m_def aug1_def)
  with Suc.prems(6) have big: "\<not> \<bar>elemAt (aug1 ! i) i\<bar> < pivotTol"
    and rec: "forward n (i + 1) (eliminate n i aug1) = Some aug'"
    by (auto split: if_splits)
  have li: "length (aug1 ! i) = n + 1" using wf1 lt by (rule wfAugD)
  then have el: "elemAt (aug1 ! i) i = aug1 ! i ! i" using lt by (simp add: elemAt_def)
  have nz: "aug1 ! i ! i \<noteq> Fin 0"
  proof
    assume "aug1 ! i ! i = Fin 0"
    with big el show False by (simp add: pivotTol_def)
  qed
  let ?aug2 = "eliminate n i aug1"
  have "wfAug n aug' \<and> finCols n (n + 1) aug' \<and> lowerZero n n aug' \<and> diagNonzero n aug'
    \<and> (\<forall>x. solves n aug' x \<longrightarrow> solves n ?aug2 x)"
  proof (rule Suc.hyps(1))
    show "d = n - (i + 1)" using Suc.hyps(2) by simp
    show "wfAug n ?aug2" using wf1 by (rule eliminate_wf)
    show "finCols n (n + 1) ?aug2"
      using wf1 fin1 lt nz by (intro eliminate_finCols) simp_all
    show "lowerZero n (i + 1) ?aug2" using wf1 fin1 lt nz lz1 by (rule eliminate_lowerZero)
    show "diagNonzero (i + 1) ?aug2" using wf1 fin1 lt nz dz1 by (rule eliminate_diagNonzero)
    show "i + 1 \<le> n" using lt by simp
    show "forward n (i + 1) ?aug2 = Some aug'" by (rule rec)
  qed
  moreover have "solves n aug x" if "solves n ?aug2 x" for x
  proof -
    have "\<forall>j<i. aug1 ! i ! j = Fin 0"
      using lz1 lt unfolding lowerZero_def by simp
    with wf1 fin1 lt nz have "solves n aug1 x"
      using that by (rule eliminate_solves)
    with len lt m(2) show ?thesis
      unfolding aug1_def by (rule swapRows_solves)
  qed
  ultimately show ?case by blast
qed


subsection \<open>Back substitution\<close>

lemma foldl_Fin_sum:
  "foldl (\<lambda>s j. s + Fin (g j)) (Fin a) [l ..< u] = Fin (a + sum g {l ..< u})"
proof (induction u)
  case 0
  show ?case by simp
next
  case (Suc u)
  show ?case
  proof (cases "l \<le> u")
    case True
    then have "{l ..< Suc u} = insert u {l ..< u}" by auto
    with True Suc show ?thesis by (simp add: add.assoc)
  next
    case False
    then show ?thesis by simp
  qed
qed

lemma foldl_products:
  assumes "\<And>j. l \<le> j \<Longrightarrow> j < u \<Longrightarrow> f j = Fin (g j)"
  shows "foldl (\<lambda>s j. s + f j) 0 [l ..< u] = Fin (sum g {l ..< u})"
proof -
  have "foldl (\<lambda>s j. s + f j) 0 [l ..< u] = foldl (\<lambda>s j. s + Fin (g j)) (Fin 0) [l ..< u]"
    unfolding zero_number_def using assms by (intro foldl_cong) auto
  then show ?thesis by (simp add: foldl_Fin_sum)
qed

lemma backRow_result:
  assumes wf: "wfAug n aug" and fin: "finCols n (n + 1) aug" and i: "i < n"
    and nz: "aug ! i ! i \<noteq> Fin 0"
    and x: "length x = n" "\<forall>j<n. isFinite (x ! j)"
  shows "backRow n aug x i =
     x[i := Fin ((val (aug ! i ! n) - (\<Sum>j = i + 1 ..< n. val (aug ! i ! j) * val (x ! j)))
                  / val (aug ! i ! i))]"
proof -
  have li: "length (aug ! i) = n + 1" using wf i by (rule wfAugD)
  have e: "aug ! i ! j = Fin (val (aug ! i ! j))" if "j \<le> n" for j
    using fin i that by (intro finCols_val [where n = n and c = "n + 1"]) auto
  have sum: "foldl (\<lambda>s j. s + elemAt (aug ! i) j * x ! j) 0 [i + 1 ..< n]
      = Fin (\<Sum>j = i + 1 ..< n. val (aug ! i ! j) * val (x ! j))"
  proof (rule foldl_products)
    fix j assume j: "i + 1 \<le> j" "j < n"
    then have "x ! j = Fin (val (x ! j))" using x(2) by (simp add: Fin_val)
    moreover have "elemAt (aug ! i) j = Fin (val (aug ! i ! j))"
      using e [of j] j li by (simp add: elemAt_def)
    ultimately show "elemAt (aug ! i) j * x ! j = Fin (val (aug ! i ! j) * val (x ! j))"
      by (metis times_number.simps(1))
  qed
  have nz': "val (aug ! i ! i) \<noteq> 0" using e [of i] nz i by auto
  have quot: "(elemAt (aug ! i) n - Fin s) / elemAt (aug ! i) i
      = Fin ((val (aug ! i ! n) - s) / val (aug ! i ! i))" for s
  proof -
    have "elemAt (aug ! i) n = Fin (val (aug ! i ! n))" "elemAt (aug ! i) i = Fin (val (aug ! i ! i))"
      using e [of n] e [of i] li i by (simp_all add: elemAt_def)
    then show ?thesis using nz' by (simp add: minus_number_def)
  qed
  show ?thesis
    unfolding backRow_def Let_def sum quot by (rule refl)
qed

lemma rev_upt_step: "i < n \<Longrightarrow> rev [i ..< n] = rev [Suc i ..< n] @ [i]"
  by (simp add: upt_conv_Cons)

lemma backSubst_invariant:
  assumes wf: "wfAug n aug" and fin: "finCols n (n + 1) aug" and dz: "diagNonzero n aug"
  shows "i \<le> n \<Longrightarrow>
    (let x = foldl (backRow n aug) (replicate n 0) (rev [i ..< n])
     in length x = n \<and> (\<forall>j<n. isFinite (x ! j))
        \<and> (\<forall>k. i \<le> k \<and> k < n \<longrightarrow>
              (\<Sum>j = k ..< n. val (aug ! k ! j) * val (x ! j)) = val (aug ! k ! n)))"
proof (induction "n - i" arbitrary: i)
  case 0
  then show ?case by (simp add: zero_number_def)
next
  case (Suc d)
  then have lt: "i < n" by simp
  define x' where "x' = foldl (backRow n aug) (replicate n 0) (rev [Suc i ..< n])"
  have IH: "length x' = n" "\<forall>j<n. isFinite (x' ! j)"
    "\<And>k. Suc i \<le> k \<Longrightarrow> k < n \<Longrightarrow>
        (\<Sum>j = k ..< n. val (aug ! k ! j) * val (x' ! j)) = val (aug ! k ! n)"
    using Suc.hyps(1) [of "Suc i"] Suc.hyps(2) lt by (simp_all add: x'_def Let_def)
  have nz: "aug ! i ! i \<noteq> Fin 0" using dz lt by (simp add: diagNonzero_def)
  have e: "aug ! i ! i = Fin (val (aug ! i ! i))"
    using fin lt by (intro finCols_val [where n = n and c = "n + 1"]) auto
  with nz have nz': "val (aug ! i ! i) \<noteq> 0" by auto
  define S where "S = (\<Sum>j = i + 1 ..< n. val (aug ! i ! j) * val (x' ! j))"
  define x where "x = x'[i := Fin ((val (aug ! i ! n) - S) / val (aug ! i ! i))]"
  have x: "foldl (backRow n aug) (replicate n 0) (rev [i ..< n]) = x"
    using backRow_result [OF wf fin lt nz IH(1,2)]
    by (simp add: rev_upt_step [OF lt] x'_def [symmetric] x_def S_def)
  have len: "length x = n" using IH(1) by (simp add: x_def)
  have finx: "\<forall>j<n. isFinite (x ! j)"
    using IH(1,2) lt by (auto simp: x_def nth_list_update)
  have same: "x ! j = x' ! j" if "i < j" for j
    using that by (simp add: x_def)
  have xi: "val (x ! i) = (val (aug ! i ! n) - S) / val (aug ! i ! i)"
    using IH(1) lt by (simp add: x_def)
  have eq: "(\<Sum>j = k ..< n. val (aug ! k ! j) * val (x ! j)) = val (aug ! k ! n)"
    if k: "i \<le> k" "k < n" for k
  proof (cases "k = i")
    case False
    with k have "Suc i \<le> k" by simp
    moreover have "(\<Sum>j = k ..< n. val (aug ! k ! j) * val (x ! j))
        = (\<Sum>j = k ..< n. val (aug ! k ! j) * val (x' ! j))"
      using \<open>Suc i \<le> k\<close> by (intro sum.cong) (simp_all add: same)
    ultimately show ?thesis using IH(3) k by simp
  next
    case True
    have "{i ..< n} = insert i {i + 1 ..< n}" using lt by auto
    then have "(\<Sum>j = i ..< n. val (aug ! i ! j) * val (x ! j))
        = val (aug ! i ! i) * val (x ! i) + (\<Sum>j = i + 1 ..< n. val (aug ! i ! j) * val (x ! j))"
      by simp
    also have "(\<Sum>j = i + 1 ..< n. val (aug ! i ! j) * val (x ! j)) = S"
      unfolding S_def by (intro sum.cong) (simp_all add: same)
    also have "val (aug ! i ! i) * val (x ! i) + S = val (aug ! i ! n)"
      using nz' by (simp add: xi)
    finally show ?thesis using True by simp
  qed
  show ?case
    unfolding x Let_def using len finx eq by blast
qed

lemma backSubst_solves:
  assumes wf: "wfAug n aug" and fin: "finCols n (n + 1) aug"
    and lz: "lowerZero n n aug" and dz: "diagNonzero n aug"
  shows "length (backSubst n aug) = n \<and> (\<forall>j<n. isFinite (backSubst n aug ! j))
    \<and> solves n aug (\<lambda>j. val (backSubst n aug ! j))"
proof -
  let ?x = "backSubst n aug"
  from backSubst_invariant [OF wf fin dz, of 0]
  have inv: "length ?x = n" "\<forall>j<n. isFinite (?x ! j)"
    "\<And>k. k < n \<Longrightarrow> (\<Sum>j = k ..< n. val (aug ! k ! j) * val (?x ! j)) = val (aug ! k ! n)"
    by (simp_all add: backSubst_def Let_def)
  have "(\<Sum>j<n. val (aug ! k ! j) * val (?x ! j)) = val (aug ! k ! n)" if k: "k < n" for k
  proof -
    have "{..<n} = {..<k} \<union> {k ..< n}" using k by auto
    then have "(\<Sum>j<n. val (aug ! k ! j) * val (?x ! j))
        = (\<Sum>j<k. val (aug ! k ! j) * val (?x ! j)) + (\<Sum>j = k ..< n. val (aug ! k ! j) * val (?x ! j))"
      by (simp add: sum.union_disjoint ivl_disj_int)
    moreover have "(\<Sum>j<k. val (aug ! k ! j) * val (?x ! j)) = 0"
    proof (rule sum.neutral, rule ballI)
      fix j assume "j \<in> {..<k}"
      then have "aug ! k ! j = Fin 0" using lz k unfolding lowerZero_def by simp
      then show "val (aug ! k ! j) * val (?x ! j) = 0" by simp
    qed
    ultimately show ?thesis using inv(3) [OF k] by simp
  qed
  with inv show ?thesis by (simp add: solves_def)
qed


subsection \<open>The solver in exact arithmetic\<close>

lemma dot_finite:
  assumes "length xs = n" "length ys = n" "\<forall>j<n. isFinite (xs ! j)" "\<forall>j<n. isFinite (ys ! j)"
  shows "dot xs ys = Fin (\<Sum>j<n. val (xs ! j) * val (ys ! j))"
proof -
  have "foldl (\<lambda>acc j. acc + xs ! j * ys ! j) 0 [0 ..< n]
      = Fin (\<Sum>j = 0 ..< n. val (xs ! j) * val (ys ! j))"
  proof (rule foldl_products)
    fix j assume "0 \<le> j" "j < n"
    then have "xs ! j = Fin (val (xs ! j))" "ys ! j = Fin (val (ys ! j))"
      using assms(3,4) by (simp_all add: Fin_val)
    then show "xs ! j * ys ! j = Fin (val (xs ! j) * val (ys ! j))"
      by (metis times_number.simps(1))
  qed
  then show ?thesis
    using dot_upt [OF assms(1,2)] by (simp add: atLeast0LessThan)
qed

text \<open>
  In the arithmetic of this model, which is exact on finite numbers, the solver is
  correct: for a square matrix and a right-hand side of finite numbers, if no elimination
  step meets a pivot below the tolerance then \<^verbatim>\<open>solveLinearSystem\<close> returns a vector \<open>x\<close> of
  finite numbers with \<open>A\<cdot>x = b\<close>. This is a statement about the algorithm; it bounds no
  rounding error of the 64-bit floating-point arithmetic the program runs on.
\<close>

theorem solve_exact:
  assumes sq: "\<forall>row \<in> set A. length row = length A \<and> list_all isFinite row"
    and b: "length b = length A" "list_all isFinite b"
    and ns: "\<forall>k<length A. \<not> \<bar>pivotAt (length A) (augmented A b) k\<bar> < pivotTol"
  shows "\<exists>x. solveLinearSystem A b = Inr (Some x) \<and> length x = length A
     \<and> list_all isFinite x \<and> (\<forall>i<length A. dot (A ! i) x = b ! i)"
proof -
  let ?n = "length A"
  let ?aug = "augmented A b"
  have sq': "\<forall>row \<in> set A. length row = ?n" using sq by blast
  have wf: "wfAug ?n ?aug" using b(1) sq' by (rule augmented_wf)
  have finA: "isFinite (A ! k ! j)" if "k < ?n" "j < ?n" for k j
  proof -
    from that have "A ! k \<in> set A" by simp
    with sq that show ?thesis by (auto simp: list_all_length)
  qed
  have finb: "isFinite (b ! k)" if "k < ?n" for k
    using b that by (simp add: list_all_length)
  have fin: "finCols ?n (?n + 1) ?aug"
    unfolding finCols_def
  proof (intro allI impI)
    fix k j assume kj: "k < ?n" "j < ?n + 1"
    show "isFinite (?aug ! k ! j)"
    proof (cases "j < ?n")
      case True
      with kj finA show ?thesis using augmented_entry(1) [OF b(1) sq' kj(1)] by simp
    next
      case False
      with kj have "j = ?n" by simp
      with kj finb show ?thesis using augmented_entry(2) [OF b(1) sq' kj(1)] by simp
    qed
  qed
  have "forward ?n 0 ?aug \<noteq> None"
    using forward_None_iff [of 0 ?n ?aug] ns by auto
  then obtain aug' where fw: "forward ?n 0 ?aug = Some aug'" by blast
  have "lowerZero ?n 0 ?aug" "diagNonzero 0 ?aug"
    by (simp_all add: lowerZero_def diagNonzero_def)
  with wf fin have snd: "wfAug ?n aug'" "finCols ?n (?n + 1) aug'" "lowerZero ?n ?n aug'"
    "diagNonzero ?n aug'" "\<And>x. solves ?n aug' x \<Longrightarrow> solves ?n ?aug x"
    using forward_sound [of ?n ?aug 0 aug'] fw by simp_all
  let ?x = "backSubst ?n aug'"
  from backSubst_solves [OF snd(1-4)]
  have x: "length ?x = ?n" "\<forall>j<?n. isFinite (?x ! j)" "solves ?n aug' (\<lambda>j. val (?x ! j))"
    by simp_all
  from snd(5) [OF x(3)] have sol: "solves ?n ?aug (\<lambda>j. val (?x ! j))" .
  have "dot (A ! i) ?x = b ! i" if i: "i < ?n" for i
  proof -
    have li: "length (A ! i) = ?n" using sq' i by simp
    have "dot (A ! i) ?x = Fin (\<Sum>j<?n. val (A ! i ! j) * val (?x ! j))"
      using li x(1) finA [OF i] x(2) by (intro dot_finite) simp_all
    also have "(\<Sum>j<?n. val (A ! i ! j) * val (?x ! j))
        = (\<Sum>j<?n. val (?aug ! i ! j) * val (?x ! j))"
      by (rule sum.cong) (simp_all add: augmented_entry(1) [OF b(1) sq' i])
    also have "\<dots> = val (?aug ! i ! ?n)"
      using sol i unfolding solves_def by blast
    also have "\<dots> = val (b ! i)"
      by (simp add: augmented_entry(2) [OF b(1) sq' i])
    finally show ?thesis using finb [OF i] by (simp add: Fin_val)
  qed
  moreover have "solveLinearSystem A b = Inr (Some ?x)"
    using b(1) fw by (simp add: solveLinearSystem_def Let_def)
  moreover have "list_all isFinite ?x" using x(1,2) by (simp add: list_all_length)
  ultimately show ?thesis using x(1) by blast
qed


end
